theory Spec2Isabelle
  imports Complex_Main "HOL-Library.Word" "HOL-Library.Multiset"
begin

unbundle bit_operations_syntax

section \<open>JavaScript numbers and the 32-bit coercion\<close>

text \<open>
  A seed is a JavaScript \<open>number\<close>: a finite value (every finite binary64 value is a
  real number), or one of \<open>NaN\<close>, \<open>+Infinity\<close>, \<open>-Infinity\<close>.
\<close>

datatype jsnum = Num real | NaN | PosInfinity | NegInfinity

text \<open>
  \<open>x | 0\<close> applies ECMAScript's ToInt32: \<open>NaN\<close> and the infinities become 0, a finite
  value is truncated towards zero and reduced modulo \<open>2^32\<close>. The result is kept as its
  32-bit pattern; \<open>sint\<close> reads the signed value JavaScript shows.
\<close>

definition truncate_js :: "real \<Rightarrow> int" where
  "truncate_js x = (if x < 0 then - \<lfloor>- x\<rfloor> else \<lfloor>x\<rfloor>)"

fun to_int32 :: "jsnum \<Rightarrow> 32 word" where
  "to_int32 (Num x) = word_of_int (truncate_js x)"
| "to_int32 NaN = 0"
| "to_int32 PosInfinity = 0"
| "to_int32 NegInfinity = 0"

text \<open>The number that a 32-bit integer value is.\<close>

definition int32_num :: "32 word \<Rightarrow> jsnum" where
  "int32_num w = Num (of_int (sint w))"

section \<open>The generator \<open>mulberry32\<close>\<close>

text \<open>\<open>Math.imul\<close>: the low 32 bits of the product.\<close>

definition imul :: "32 word \<Rightarrow> 32 word \<Rightarrow> 32 word" where
  "imul a b = a * b"

text \<open>
  \<open>mulberry32(seed)\<close> returns a closure over the variable \<open>s = seed | 0\<close>. The closure is
  modelled by its captured state: \<open>mulberry32\<close> gives the initial state, and \<open>rng\<close> is one
  call of the closure, returning the new state together with the result. The result
  \<open>((t ^ (t >>> 14)) >>> 0) / 4294967296\<close> is an unsigned 32-bit integer \<open>k\<close> divided by
  \<open>2^32\<close>, which binary64 represents exactly; \<open>rng\<close> returns \<open>k\<close> and \<open>rng_value\<close> is the
  quotient.
\<close>

definition mulberry32 :: "jsnum \<Rightarrow> 32 word" where
  "mulberry32 seed = to_int32 seed"

definition rng :: "32 word \<Rightarrow> 32 word \<times> 32 word" where
  "rng s0 =
     (let s = s0 + 0x6d2b79f5;
          t = imul (s XOR drop_bit 15 s) (1 OR s);
          t = (t + imul (t XOR drop_bit 7 t) (61 OR t)) XOR t
      in (t XOR drop_bit 14 t, s))"

definition rng_value :: "32 word \<Rightarrow> real" where
  "rng_value k = real (unat k) / 4294967296"

text \<open>The first \<open>n\<close> results of the closure, from state \<open>s\<close>.\<close>

fun rng_stream :: "32 word \<Rightarrow> nat \<Rightarrow> 32 word list" where
  "rng_stream s 0 = []"
| "rng_stream s (Suc n) = (case rng s of (k, s') \<Rightarrow> k # rng_stream s' n)"

section \<open>The product \<open>rng() * (i + 1)\<close> and its floor\<close>

text \<open>
  \<open>rng()\<close> is \<open>k / 2^32\<close> and \<open>i + 1\<close> is an integer \<open>m\<close> below \<open>2^32\<close> (array
  lengths are), so both operands are exact binary64 values. Their binary64 product is the
  exact product \<open>k * m / 2^32\<close> rounded to 53 significant bits, ties to even; the factor
  \<open>2^32\<close> only moves the exponent, and the product is 0 or at least \<open>2^-32\<close>, far from
  the subnormal range. \<open>fp_round\<close> is that rounding on the numerator \<open>k * m\<close>, and
  \<open>floor_mul k m\<close> is \<open>Math.floor(rng() * m)\<close>. Below \<open>2^53\<close> nothing is rounded.
\<close>

fun bit_length :: "nat \<Rightarrow> nat" where
  "bit_length n = (if n = 0 then 0 else Suc (bit_length (n div 2)))"

declare bit_length.simps [simp del]

definition fp_round :: "nat \<Rightarrow> nat" where
  "fp_round n =
     (if n < 2 ^ 53 then n
      else let e = bit_length n - 53; q = n div 2 ^ e; r = n mod 2 ^ e
           in if 2 * r < 2 ^ e then q * 2 ^ e
              else if 2 ^ e < 2 * r then (q + 1) * 2 ^ e
              else if even q then q * 2 ^ e
              else (q + 1) * 2 ^ e)"

definition floor_mul :: "32 word \<Rightarrow> nat \<Rightarrow> nat" where
  "floor_mul k m = fp_round (unat k * m) div 2 ^ 32"

section \<open>Arrays\<close>

text \<open>
  A JavaScript array holds values; a slot that was never written reads as
  \<open>undefined\<close>. Reading outside the array gives \<open>undefined\<close>; writing at an index at
  or beyond the length extends the array, leaving holes in between.
\<close>

datatype 'a jsval = Undefined | Null | Val 'a

definition js_get :: "'a jsval list \<Rightarrow> int \<Rightarrow> 'a jsval" where
  "js_get xs i = (if 0 \<le> i \<and> i < int (length xs) then xs ! nat i else Undefined)"

definition js_set :: "'a jsval list \<Rightarrow> nat \<Rightarrow> 'a jsval \<Rightarrow> 'a jsval list" where
  "js_set xs i v =
     (if i < length xs then xs[i := v]
      else xs @ replicate (i - length xs) Undefined @ [v])"

section \<open>The shuffle\<close>

text \<open>
  \<open>[arr[i], arr[j]] = [arr[j], arr[i]]\<close>: the right-hand side is read first, then
  \<open>arr[i]\<close> and \<open>arr[j]\<close> are written in this order.
\<close>

definition swap :: "'a jsval list \<Rightarrow> nat \<Rightarrow> nat \<Rightarrow> 'a jsval list" where
  "swap arr i j =
     (let a = js_get arr (int j); b = js_get arr (int i)
      in js_set (js_set arr i a) j b)"

text \<open>
  The loop \<open>for (let i = arr.length - 1; i > 0; i--)\<close>, with the array and the
  generator's state passed along. The body runs only with \<open>i > 0\<close>.
\<close>

function shuffle_loop :: "int \<Rightarrow> 'a jsval list \<Rightarrow> 32 word \<Rightarrow> 'a jsval list" where
  "shuffle_loop i arr s =
     (if i > 0
      then (case rng s of (k, s') \<Rightarrow>
              let j = floor_mul k (nat (i + 1))
              in shuffle_loop (i - 1) (swap arr (nat i) j) s')
      else arr)"
  by pat_completeness auto
termination
  by (relation "measure (\<lambda>(i, arr, s). nat i)") auto

declare shuffle_loop.simps [simp del]

definition seededShuffle :: "'a list \<Rightarrow> jsnum \<Rightarrow> 'a jsval list" where
  "seededShuffle items seed =
     (let arr = map Val items;
          s = mulberry32 seed
      in shuffle_loop (int (length arr) - 1) arr s)"

text \<open>
  The index pairs \<open>(i, j)\<close> of the swaps the loop performs, in order: they depend on
  the start index and the generator's state only.
\<close>

function swap_indices :: "int \<Rightarrow> 32 word \<Rightarrow> (nat \<times> nat) list" where
  "swap_indices i s =
     (if i > 0
      then (case rng s of (k, s') \<Rightarrow>
              (nat i, floor_mul k (nat (i + 1))) # swap_indices (i - 1) s')
      else [])"
  by pat_completeness auto
termination
  by (relation "measure (\<lambda>(i, s). nat i)") auto

declare swap_indices.simps [simp del]

section \<open>Invocations on a shared heap\<close>

text \<open>
  What outlives a call lives in the heap: the arrays, each addressed by its position in
  \<open>arrays\<close>, and the variable \<open>s\<close> that a closure returned by \<open>mulberry32\<close> captures, each
  addressed by its position in \<open>cells\<close>. A reference is the position; new objects are
  appended, so a reference once handed out stays valid and a new one is fresh.
\<close>

record 'a heap =
  arrays :: "'a jsval list list"
  cells :: "32 word list"

text \<open>\<open>[...items]\<close>: a new array with the elements of the given one.\<close>

definition new_array :: "'a jsval list \<Rightarrow> 'a heap \<Rightarrow> nat \<times> 'a heap" where
  "new_array xs h = (length (arrays h), h\<lparr>arrays := arrays h @ [xs]\<rparr>)"

text \<open>
  \<open>mulberry32(seed)\<close>: every call makes a new variable \<open>s = seed | 0\<close> and returns the
  closure over it; \<open>rng_h g\<close> is one call of the closure \<open>g\<close>, which runs \<open>rng\<close> on its
  variable and stores the new value there.
\<close>

definition mulberry32_h :: "jsnum \<Rightarrow> 'a heap \<Rightarrow> nat \<times> 'a heap" where
  "mulberry32_h seed h = (length (cells h), h\<lparr>cells := cells h @ [to_int32 seed]\<rparr>)"

definition rng_h :: "nat \<Rightarrow> 'a heap \<Rightarrow> 32 word \<times> 'a heap" where
  "rng_h g h =
     (case rng (cells h ! g) of (k, s) \<Rightarrow> (k, h\<lparr>cells := (cells h)[g := s]\<rparr>))"

text \<open>
  The loop of \<open>seededShuffle\<close> on the heap: it calls the closure \<open>g\<close> and swaps inside the
  array \<open>arr\<close>, in place.
\<close>

function shuffle_loop_h :: "int \<Rightarrow> nat \<Rightarrow> nat \<Rightarrow> 'a heap \<Rightarrow> 'a heap" where
  "shuffle_loop_h i arr g h =
     (if i > 0
      then (case rng_h g h of (k, h') \<Rightarrow>
              let j = floor_mul k (nat (i + 1))
              in shuffle_loop_h (i - 1) arr g
                   (h'\<lparr>arrays := (arrays h')[arr := swap (arrays h' ! arr) (nat i) j]\<rparr>))
      else h)"
  by pat_completeness auto
termination
  by (relation "measure (\<lambda>(i, arr, g, h). nat i)") auto

declare shuffle_loop_h.simps [simp del]

text \<open>
  \<open>seededShuffle(items, seed)\<close> as it runs: \<open>const arr = [...items]\<close>, then
  \<open>const rng = mulberry32(seed)\<close>, then the loop, then \<open>return arr\<close>. It takes the reference
  of the caller's array and returns the reference of the new one, with the heap it leaves.
\<close>

definition seededShuffle_h :: "nat \<Rightarrow> jsnum \<Rightarrow> 'a heap \<Rightarrow> nat \<times> 'a heap" where
  "seededShuffle_h items seed h =
     (case new_array (arrays h ! items) h of (arr, h1) \<Rightarrow>
        (case mulberry32_h seed h1 of (g, h2) \<Rightarrow>
           (arr, shuffle_loop_h (int (length (arrays h2 ! arr)) - 1) arr g h2)))"

text \<open>\<open>n\<close> consecutive calls of the closure \<open>g\<close>: the results in order, and the heap left.\<close>

fun rng_calls_h :: "nat \<Rightarrow> nat \<Rightarrow> 'a heap \<Rightarrow> 32 word list \<times> 'a heap" where
  "rng_calls_h 0 g h = ([], h)"
| "rng_calls_h (Suc n) g h =
     (case rng_h g h of (k, h') \<Rightarrow>
        (case rng_calls_h n g h' of (ks, h'') \<Rightarrow> (k # ks, h'')))"

section \<open>Cards and the draw state\<close>

text \<open>
  The interface \<open>Card\<close> of \<open>types/data\<close>:
  \<open>{id: string, text_en: string, text_es: string, color?: string | null, symbol?: string | null}\<close>.
  An optional attribute is \<open>undefined\<close> when the property is absent, \<open>null\<close>, or a string.
  The field \<open>id\<close> is named \<open>card_id\<close>, since \<open>id\<close> is the identity function of HOL.
\<close>

record Card =
  card_id :: string
  text_en :: string
  text_es :: string
  color :: "string jsval"
  symbol :: "string jsval"

text \<open>
  The interface \<open>DrawState\<close>. The fields \<open>order\<close>, \<open>index\<close> and \<open>total\<close> are stored (with
  the suffix \<open>_ds\<close> here, \<open>total\<close> being a constant of HOL); the getters \<open>remaining\<close> and
  \<open>exhausted\<close> are recomputed from them at every read.
\<close>

record DrawState =
  order_ds :: "Card jsval list"
  index_ds :: int
  total_ds :: int

definition remaining :: "DrawState \<Rightarrow> int" where
  "remaining st = total_ds st - index_ds st"

definition exhausted :: "DrawState \<Rightarrow> bool" where
  "exhausted st = (index_ds st \<ge> total_ds st)"

definition createDrawState :: "Card list \<Rightarrow> jsnum \<Rightarrow> DrawState" where
  "createDrawState cards seed =
     (let order = seededShuffle cards seed
      in \<lparr>order_ds = order, index_ds = 0, total_ds = int (length order)\<rparr>)"

text \<open>
  \<open>drawNext\<close> mutates the state it is given: the model returns the result together with
  the state after the call.
\<close>

definition drawNext :: "DrawState \<Rightarrow> Card jsval \<times> DrawState" where
  "drawNext state =
     (if index_ds state \<ge> total_ds state then (Null, state)
      else let card = js_get (order_ds state) (index_ds state)
           in (card, state\<lparr>index_ds := index_ds state + 1\<rparr>))"

text \<open>
  \<open>n\<close> consecutive calls of \<open>drawNext\<close> on one state, as the tests' loops make them: the
  results in call order, and the state after the last call.
\<close>

fun draw_n :: "nat \<Rightarrow> DrawState \<Rightarrow> Card jsval list \<times> DrawState" where
  "draw_n 0 st = ([], st)"
| "draw_n (Suc n) st =
     (case drawNext st of (c, st') \<Rightarrow>
        (case draw_n n st' of (cs, st'') \<Rightarrow> (c # cs, st'')))"

section \<open>The filter\<close>

text \<open>
  The interface \<open>CardFilter\<close>, \<open>{color?: string, symbol?: string}\<close>: a criterion is absent
  or a string. The fields carry the suffix \<open>_flt\<close> to keep them apart from the card's
  attributes.
\<close>

record CardFilter =
  color_flt :: "string option"
  symbol_flt :: "string option"

text \<open>
  JavaScript's truthiness of a value of type \<open>string | undefined\<close>: \<open>undefined\<close> and the
  empty string are falsy, every other string is truthy.
\<close>

fun truthy :: "string option \<Rightarrow> bool" where
  "truthy None = False"
| "truthy (Some v) = (v \<noteq> [])"

text \<open>
  The value read from an optional property of type \<open>string\<close>: \<open>undefined\<close> when it is
  absent. \<open>card.color !== filter.color\<close> compares two such values strictly: they are equal
  iff both are \<open>undefined\<close>, both are \<open>null\<close>, or both are the same string.
\<close>

fun of_optional :: "'a option \<Rightarrow> 'a jsval" where
  "of_optional None = Undefined"
| "of_optional (Some v) = Val v"

text \<open>
  The optional parameter \<open>filter\<close> is \<open>None\<close> when the argument is left out; an object is
  always truthy, so \<open>!filter\<close> holds exactly then.
\<close>

fun filterCards :: "Card list \<Rightarrow> CardFilter option \<Rightarrow> Card list" where
  "filterCards cards None = cards"
| "filterCards cards (Some flt) =
     filter (\<lambda>card.
        if truthy (color_flt flt) \<and> color card \<noteq> of_optional (color_flt flt) then False
        else if truthy (symbol_flt flt) \<and> symbol card \<noteq> of_optional (symbol_flt flt) then False
        else True) cards"

section \<open>Test fixtures\<close>

text \<open>
  A small deck with unique ids: the three cards of the tests' color fixture, a card whose
  color is \<open>null\<close>, a card with a symbol only, and a card with both attributes.
\<close>

definition test_card1 :: Card where
  "test_card1 = \<lparr>card_id = ''1'', text_en = ''A'', text_es = ''A'',
     color = Val ''red'', symbol = Undefined\<rparr>"

definition test_card2 :: Card where
  "test_card2 = \<lparr>card_id = ''2'', text_en = ''B'', text_es = ''B'',
     color = Val ''blue'', symbol = Undefined\<rparr>"

definition test_card3 :: Card where
  "test_card3 = \<lparr>card_id = ''3'', text_en = ''C'', text_es = ''C'',
     color = Val ''red'', symbol = Undefined\<rparr>"

definition test_card4 :: Card where
  "test_card4 = \<lparr>card_id = ''4'', text_en = ''D'', text_es = ''D'',
     color = Null, symbol = Undefined\<rparr>"

definition test_card5 :: Card where
  "test_card5 = \<lparr>card_id = ''5'', text_en = ''E'', text_es = ''E'',
     color = Undefined, symbol = Val ''heart''\<rparr>"

definition test_card6 :: Card where
  "test_card6 = \<lparr>card_id = ''6'', text_en = ''F'', text_es = ''F'',
     color = Val ''red'', symbol = Val ''heart''\<rparr>"

text \<open>A heap holding one array of three numbers and no closure.\<close>

definition test_heap :: "nat heap" where
  "test_heap = \<lparr>arrays = [[Val 1, Val 2, Val 3]], cells = []\<rparr>"

section \<open>Rounding and the random index\<close>

lemma bit_length_bounds:
  "0 < n \<Longrightarrow> 2 ^ (bit_length n - 1) \<le> n \<and> n < 2 ^ bit_length n"
proof (induction n rule: bit_length.induct)
  case (1 n)
  show ?case
  proof (cases "n div 2 = 0")
    case True
    with 1(2) have "n = 1" by (simp add: div_eq_0_iff)
    then show ?thesis by (simp add: bit_length.simps)
  next
    case False
    with 1 have ih: "2 ^ (bit_length (n div 2) - 1) \<le> n div 2" "n div 2 < 2 ^ bit_length (n div 2)"
      by simp_all
    from False have pos: "0 < bit_length (n div 2)"
      by (subst bit_length.simps) simp
    have bl: "bit_length n = Suc (bit_length (n div 2))"
      using 1(2) by (subst bit_length.simps) simp
    from pos obtain b where b: "bit_length (n div 2) = Suc b"
      by (cases "bit_length (n div 2)") simp_all
    have lo: "2 * (n div 2) \<le> n" and hi: "n < 2 * (n div 2) + 2"
      by presburger+
    from ih(1) b lo have "2 ^ Suc b \<le> n" by simp
    moreover from ih(2) b hi have "n < 2 ^ Suc (Suc b)" by simp
    ultimately show ?thesis by (simp add: bl b)
  qed
qed

lemma fp_round_exact: "n < 2 ^ 53 \<Longrightarrow> fp_round n = n"
  by (simp add: fp_round_def)

lemma bit_length_ge: "2 ^ k \<le> n \<Longrightarrow> k < bit_length n"
proof -
  assume a: "2 ^ k \<le> n"
  then have "0 < n" by (metis less_le_trans zero_less_numeral zero_less_power)
  then have "n < 2 ^ bit_length n" using bit_length_bounds by blast
  with a have "(2::nat) ^ k < 2 ^ bit_length n" by linarith
  then show ?thesis by simp
qed

lemma fp_round_upper:
  assumes "2 ^ 53 \<le> n"
  shows "2 * fp_round n \<le> 2 * n + 2 ^ (bit_length n - 53)"
proof -
  define e where "e = bit_length n - 53"
  define q where "q = n div 2 ^ e"
  define r where "r = n mod 2 ^ e"
  have n: "n = q * 2 ^ e + r" unfolding q_def r_def by (rule div_mult_mod_eq [symmetric])
  have r: "r < 2 ^ e" by (simp add: r_def)
  have fr: "fp_round n = (if 2 * r < 2 ^ e then q * 2 ^ e
              else if 2 ^ e < 2 * r then (q + 1) * 2 ^ e
              else if even q then q * 2 ^ e
              else (q + 1) * 2 ^ e)"
    using assms by (simp add: fp_round_def Let_def e_def q_def r_def)
  have down: "2 * (q * 2 ^ e) \<le> 2 * n + 2 ^ e" using n by simp
  have up: "2 * ((q + 1) * 2 ^ e) \<le> 2 * n + 2 ^ e" if "\<not> 2 * r < 2 ^ e"
    using n that by (simp add: algebra_simps)
  have "fp_round n = q * 2 ^ e \<or> (\<not> 2 * r < 2 ^ e \<and> fp_round n = (q + 1) * 2 ^ e)"
    by (simp add: fr)
  then show ?thesis
    unfolding e_def [symmetric] using down up by (elim disjE conjE) simp_all
qed

lemma floor_mul_less:
  assumes "0 < m"
  shows "floor_mul k m < m"
proof -
  define n where "n = unat k * m"
  have k: "unat k < 2 ^ 32" using unsigned_less [of k] by simp
  then have nm: "n + m \<le> 2 ^ 32 * m"
    by (simp add: n_def)
  have "fp_round n < 2 ^ 32 * m"
  proof (cases "n < 2 ^ 53")
    case True
    with nm assms show ?thesis by (simp add: fp_round_exact)
  next
    case False
    then have big: "2 ^ 53 \<le> n" by simp
    define b where "b = bit_length n"
    have b54: "53 < b" unfolding b_def using big by (rule bit_length_ge)
    have "0 < n" using big by (metis less_le_trans zero_less_numeral zero_less_power)
    then have "2 ^ (b - 1) \<le> n" unfolding b_def using bit_length_bounds by blast
    also have "n < 2 ^ 32 * m" using nm assms by linarith
    finally have "(2::nat) ^ (b - 1) < 2 ^ 32 * m" .
    moreover have "b - 1 = 32 + (b - 33)" using b54 by simp
    then have "(2::nat) ^ (b - 1) = 2 ^ 32 * 2 ^ (b - 33)"
      by (simp only: power_add)
    ultimately have m: "2 ^ (b - 33) < m" by simp
    have "(2::nat) ^ (b - 53) \<le> 2 ^ (b - 33)" by (rule power_increasing) simp_all
    with m have "2 ^ (b - 53) < 2 * m" by linarith
    with fp_round_upper [OF big] have "2 * fp_round n < 2 * n + 2 * m"
      unfolding b_def by linarith
    with nm show ?thesis by linarith
  qed
  then show ?thesis
    by (simp add: floor_mul_def n_def less_mult_imp_div_less mult.commute)
qed

lemma rng_value_range: "0 \<le> rng_value k \<and> rng_value k < 1"
proof -
  have "unat k < 2 ^ 32" using unsigned_less [of k] by simp
  then have "real (unat k) < 2 ^ 32"
    by (simp only: of_nat_less_numeral_power_cancel_iff)
  then show ?thesis by (simp add: rng_value_def del: of_nat_unat)
qed

lemma floor_mul_real:
  assumes "unat k * m < 2 ^ 53"
  shows "int (floor_mul k m) = \<lfloor>rng_value k * real m\<rfloor>"
proof -
  have "rng_value k * real m = real (unat k * m) / real (2 ^ 32)"
    by (simp add: rng_value_def)
  then have "\<lfloor>rng_value k * real m\<rfloor> = int ((unat k * m) div 2 ^ 32)"
    by (simp only: floor_divide_of_nat_eq) 
  with assms show ?thesis by (simp add: floor_mul_def fp_round_exact)
qed

section \<open>The loop as a sequence of swaps\<close>

lemma shuffle_loop_step:
  "0 < i \<Longrightarrow> shuffle_loop i arr s =
     shuffle_loop (i - 1) (swap arr (nat i) (floor_mul (fst (rng s)) (nat (i + 1)))) (snd (rng s))"
  by (subst shuffle_loop.simps) (simp add: case_prod_beta)

lemma shuffle_loop_stop: "\<not> 0 < i \<Longrightarrow> shuffle_loop i arr s = arr"
  by (subst shuffle_loop.simps) simp

lemma swap_indices_step:
  "0 < i \<Longrightarrow> swap_indices i s =
     (nat i, floor_mul (fst (rng s)) (nat (i + 1))) # swap_indices (i - 1) (snd (rng s))"
  by (subst swap_indices.simps) (simp add: case_prod_beta)

lemma swap_indices_stop: "\<not> 0 < i \<Longrightarrow> swap_indices i s = []"
  by (subst swap_indices.simps) simp

lemma swap_in_bounds:
  "i < length arr \<Longrightarrow> j < length arr \<Longrightarrow> swap arr i j = arr[i := arr ! j, j := arr ! i]"
  by (simp add: swap_def js_get_def js_set_def)

lemma length_swap: "i < length arr \<Longrightarrow> j < length arr \<Longrightarrow> length (swap arr i j) = length arr"
  by (simp add: swap_in_bounds)

lemma mset_swap_arr: "i < length arr \<Longrightarrow> j < length arr \<Longrightarrow> mset (swap arr i j) = mset arr"
  by (simp add: swap_in_bounds mset_swap)

lemma shuffle_loop_fold:
  "shuffle_loop i arr s = foldl (\<lambda>a (p, q). swap a p q) arr (swap_indices i s)"
proof (induction i arr s rule: shuffle_loop.induct)
  case (1 i arr s)
  show ?case
  proof (cases "0 < i")
    case True
    then show ?thesis
      using 1 [OF True, of "fst (rng s)" "snd (rng s)"]
      by (simp add: shuffle_loop_step swap_indices_step)
  next
    case False
    then show ?thesis by (simp add: shuffle_loop_stop swap_indices_stop)
  qed
qed

lemma swap_indices_bounds:
  "(p, q) \<in> set (swap_indices i s) \<Longrightarrow> 0 < p \<and> int p \<le> i \<and> q \<le> p"
proof (induction i s rule: swap_indices.induct)
  case (1 i s)
  show ?case
  proof (cases "0 < i")
    case True
    have "floor_mul (fst (rng s)) (nat (i + 1)) < nat (i + 1)"
      using True by (intro floor_mul_less) simp
    then have j: "floor_mul (fst (rng s)) (nat (i + 1)) \<le> nat i"
      using True by linarith
    from 1(2) True consider "p = nat i" "q = floor_mul (fst (rng s)) (nat (i + 1))"
      | "(p, q) \<in> set (swap_indices (i - 1) (snd (rng s)))"
      by (auto simp: swap_indices_step)
    then show ?thesis
    proof cases
      case 1
      with True j show ?thesis by simp
    next
      case 2
      with "1.IH" [OF True, of "fst (rng s)" "snd (rng s)"] show ?thesis by simp
    qed
  next
    case False
    with 1(2) show ?thesis by (simp add: swap_indices_stop)
  qed
qed

lemma foldl_swap_inv:
  assumes "\<forall>(p, q) \<in> set ps. p < length arr \<and> q < length arr"
  shows "length (foldl (\<lambda>a (p, q). swap a p q) arr ps) = length arr
       \<and> mset (foldl (\<lambda>a (p, q). swap a p q) arr ps) = mset arr"
  using assms
proof (induction ps arbitrary: arr)
  case Nil
  then show ?case by simp
next
  case (Cons x ps)
  obtain p q where x: "x = (p, q)" by (cases x)
  with Cons.prems have pq: "p < length arr" "q < length arr" by simp_all
  have "\<forall>(a, b) \<in> set ps. a < length (swap arr p q) \<and> b < length (swap arr p q)"
    using Cons.prems by (auto simp: length_swap pq x)
  from Cons.IH [OF this] show ?case
    by (simp add: x length_swap mset_swap_arr pq)
qed

lemma swap_indices_in_range:
  assumes "(p, q) \<in> set (swap_indices (int n - 1) s)"
  shows "p < n \<and> q < n"
  using swap_indices_bounds [OF assms] by linarith

lemma shuffle_loop_perm:
  "length (shuffle_loop (int (length arr) - 1) arr s) = length arr
   \<and> mset (shuffle_loop (int (length arr) - 1) arr s) = mset arr"
  unfolding shuffle_loop_fold
  by (rule foldl_swap_inv) (use swap_indices_in_range in blast)

lemma seededShuffle_length: "length (seededShuffle items seed) = length items"
  using shuffle_loop_perm [of "map Val items" "mulberry32 seed"]
  by (simp add: seededShuffle_def)

lemma seededShuffle_mset: "mset (seededShuffle items seed) = mset (map Val items)"
  using shuffle_loop_perm [of "map Val items" "mulberry32 seed"]
  by (simp add: seededShuffle_def)

section \<open>The shuffle is a permutation\<close>

text \<open>
  Claim C1. For every input sequence and every seed, \<open>seededShuffle\<close> returns a sequence
  of the same length holding the same multiset of elements as the input (every slot is
  one of the input's values, none is \<open>undefined\<close>); the shuffle of the empty sequence is
  empty and the shuffle of a one-element sequence is that sequence, whatever the seed.
\<close>

theorem seededShuffle_permutation:
  "length (seededShuffle items seed) = length items
   \<and> mset (seededShuffle items seed) = mset (map Val items)
   \<and> seededShuffle [] seed = []
   \<and> seededShuffle [x] seed = [Val x]"
proof -
  have "seededShuffle [] seed = []"
    by (simp add: seededShuffle_def shuffle_loop_stop)
  moreover have "seededShuffle [x] seed = [Val x]"
    by (simp add: seededShuffle_def shuffle_loop_stop)
  ultimately show ?thesis
    by (simp add: seededShuffle_length seededShuffle_mset)
qed

section \<open>Filters that restrict nothing\<close>

text \<open>
  Claim C7. \<open>filterCards\<close> without a filter argument, and with a filter object in which
  neither \<open>color\<close> nor \<open>symbol\<close> is present, returns the cards it was given: the same
  elements in the same order.
\<close>

theorem filterCards_identity:
  "filterCards cards None = cards
   \<and> filterCards cards (Some \<lparr>color_flt = None, symbol_flt = None\<rparr>) = cards"
  by simp

text \<open>
  Claim C10. A criterion that is present but is the empty string imposes no restriction:
  with only such a criterion every card is returned, and beside another criterion it
  behaves exactly as an absent one.
\<close>

theorem filterCards_empty_string:
  "filterCards cards (Some \<lparr>color_flt = Some [], symbol_flt = None\<rparr>) = cards
   \<and> filterCards cards (Some \<lparr>color_flt = None, symbol_flt = Some []\<rparr>) = cards
   \<and> filterCards cards (Some \<lparr>color_flt = Some [], symbol_flt = sy\<rparr>)
       = filterCards cards (Some \<lparr>color_flt = None, symbol_flt = sy\<rparr>)
   \<and> filterCards cards (Some \<lparr>color_flt = co, symbol_flt = Some []\<rparr>)
       = filterCards cards (Some \<lparr>color_flt = co, symbol_flt = None\<rparr>)"
  by simp

section \<open>Drawing\<close>

lemma drawNext_exhausted: "total_ds st \<le> index_ds st \<Longrightarrow> drawNext st = (Null, st)"
  by (simp add: drawNext_def)

lemma drawNext_active:
  "index_ds st < total_ds st \<Longrightarrow>
     drawNext st = (js_get (order_ds st) (index_ds st), st\<lparr>index_ds := index_ds st + 1\<rparr>)"
  by (simp add: drawNext_def)

lemma draw_n_exhausted: "total_ds st \<le> index_ds st \<Longrightarrow> draw_n n st = (replicate n Null, st)"
  by (induction n) (simp_all add: drawNext_exhausted)

lemma draw_n_active:
  assumes "0 \<le> index_ds st" and "total_ds st = int (length (order_ds st))"
    and "index_ds st + int k \<le> total_ds st"
  shows "draw_n k st =
    (take k (drop (nat (index_ds st)) (order_ds st)), st\<lparr>index_ds := index_ds st + int k\<rparr>)"
  using assms
proof (induction k arbitrary: st)
  case 0
  then show ?case by simp
next
  case (Suc k)
  let ?st' = "st\<lparr>index_ds := index_ds st + 1\<rparr>"
  from Suc.prems have lt: "index_ds st < total_ds st" by simp
  have idx: "nat (index_ds st) < length (order_ds st)"
    using Suc.prems by linarith
  have get: "js_get (order_ds st) (index_ds st) = order_ds st ! nat (index_ds st)"
    using Suc.prems by (simp add: js_get_def)
  have ih: "draw_n k ?st' =
    (take k (drop (nat (index_ds ?st')) (order_ds ?st')), ?st'\<lparr>index_ds := index_ds ?st' + int k\<rparr>)"
    using Suc.prems by (intro Suc.IH) simp_all
  have nat_suc: "nat (index_ds st + 1) = Suc (nat (index_ds st))"
    using Suc.prems by simp
  have "take (Suc k) (drop (nat (index_ds st)) (order_ds st))
      = order_ds st ! nat (index_ds st) # take k (drop (Suc (nat (index_ds st))) (order_ds st))"
    using idx by (simp add: Cons_nth_drop_Suc [symmetric])
  then show ?case
    by (simp add: drawNext_active [OF lt] get ih nat_suc add.assoc)
qed

lemma createDrawState_fields:
  "order_ds (createDrawState cards seed) = seededShuffle cards seed"
  "index_ds (createDrawState cards seed) = 0"
  "total_ds (createDrawState cards seed) = int (length cards)"
  by (simp_all add: createDrawState_def Let_def seededShuffle_length)

lemma drawNext_keeps:
  "order_ds (snd (drawNext st)) = order_ds st \<and> total_ds (snd (drawNext st)) = total_ds st"
  by (simp add: drawNext_def Let_def)

lemma drawNext_index:
  "index_ds (snd (drawNext st)) = (if total_ds st \<le> index_ds st then index_ds st else index_ds st + 1)"
  by (simp add: drawNext_def Let_def)

lemma draw_n_snd_Suc: "snd (draw_n (Suc n) st) = snd (drawNext (snd (draw_n n st)))"
  by (induction n arbitrary: st) (simp_all add: case_prod_beta)

lemma draw_n_fst_Suc:
  "fst (draw_n (Suc n) st) = fst (draw_n n st) @ [fst (drawNext (snd (draw_n n st)))]"
  by (induction n arbitrary: st) (simp_all add: case_prod_beta)

lemma draw_n_invariant:
  assumes "0 \<le> index_ds st" and "index_ds st \<le> total_ds st"
  shows "0 \<le> index_ds (snd (draw_n n st)) \<and> index_ds (snd (draw_n n st)) \<le> total_ds st
       \<and> order_ds (snd (draw_n n st)) = order_ds st \<and> total_ds (snd (draw_n n st)) = total_ds st"
proof (induction n)
  case 0
  with assms show ?case by simp
next
  case (Suc n)
  then show ?case
    by (simp only: draw_n_snd_Suc drawNext_keeps drawNext_index) simp
qed

lemma distinct_ids_shuffle:
  assumes "distinct (map f items)"
  shows "distinct (map (map_jsval f) (seededShuffle items seed))"
proof -
  have "mset (map (map_jsval f) (seededShuffle items seed)) = mset (map Val (map f items))"
    by (simp add: seededShuffle_mset multiset.map_comp comp_def)
  moreover have "distinct (map Val (map f items))"
    using assms by (simp add: distinct_map inj_on_def)
  ultimately show ?thesis
    using mset_eq_imp_distinct_iff by blast
qed


lemmas shuffle_eval =
  seededShuffle_def mulberry32_def truncate_js_def shuffle_loop_step shuffle_loop_stop
  swap_indices_step swap_indices_stop rng_def imul_def floor_mul_def fp_round_def
  swap_def js_get_def js_set_def

lemmas test_cards =
  test_card1_def test_card2_def test_card3_def test_card4_def test_card5_def test_card6_def

lemma truncate_js_of_int: "truncate_js (of_int z) = z"
  by (simp add: truncate_js_def)

lemma to_int32_int32_num: "to_int32 (int32_num w) = w"
  by (simp only: int32_num_def to_int32.simps truncate_js_of_int) simp

lemma rng_stream_take: "m \<le> n \<Longrightarrow> take m (rng_stream s n) = rng_stream s m"
proof (induction n arbitrary: s m)
  case 0
  then show ?case by simp
next
  case (Suc n)
  then show ?case
    by (cases m) (simp_all add: case_prod_beta)
qed

lemma draw_n_add: "snd (draw_n (n + m) st) = snd (draw_n m (snd (draw_n n st)))"
proof (induction m)
  case 0
  then show ?case by simp
next
  case (Suc m)
  then show ?case by (simp only: add_Suc_right draw_n_snd_Suc)
qed

text \<open>
  Claim C2. From \<open>createDrawState cards seed\<close> with \<open>N\<close> cards, the first \<open>N\<close> calls of
  \<open>drawNext\<close> return the shuffled order, card by card: every card once, none skipped or
  repeated, so \<open>N\<close> distinct ids when the input's ids are distinct. After \<open>k \<le> N\<close> calls
  the first \<open>k\<close> cards of the order have been returned, \<open>remaining\<close> is \<open>N - k\<close> and
  \<open>exhausted\<close> holds exactly when \<open>k = N\<close>. Call \<open>N + 1\<close> returns \<open>null\<close>.
\<close>

theorem draw_all_cards:
  "fst (draw_n (length cards) (createDrawState cards seed)) = seededShuffle cards seed
   \<and> mset (fst (draw_n (length cards) (createDrawState cards seed))) = mset (map Val cards)
   \<and> (distinct (map card_id cards) \<longrightarrow>
        distinct (map (map_jsval card_id) (fst (draw_n (length cards) (createDrawState cards seed)))))
   \<and> (k \<le> length cards \<longrightarrow>
        fst (draw_n k (createDrawState cards seed)) = take k (seededShuffle cards seed)
        \<and> remaining (snd (draw_n k (createDrawState cards seed))) = int (length cards) - int k
        \<and> (exhausted (snd (draw_n k (createDrawState cards seed))) \<longleftrightarrow> k = length cards))
   \<and> fst (drawNext (snd (draw_n (length cards) (createDrawState cards seed)))) = Null
   \<and> fst (draw_n (Suc (length cards)) (createDrawState cards seed))
        = seededShuffle cards seed @ [Null]"
proof -
  let ?st = "createDrawState cards seed"
  have run: "draw_n k ?st = (take k (seededShuffle cards seed), ?st\<lparr>index_ds := int k\<rparr>)"
    if "k \<le> length cards" for k
    using draw_n_active [of ?st k] that by (simp add: createDrawState_fields seededShuffle_length)
  have full: "draw_n (length cards) ?st
      = (seededShuffle cards seed, ?st\<lparr>index_ds := int (length cards)\<rparr>)"
    using run [of "length cards"] by (simp add: seededShuffle_length)
  have last: "drawNext (?st\<lparr>index_ds := int (length cards)\<rparr>)
      = (Null, ?st\<lparr>index_ds := int (length cards)\<rparr>)"
    by (rule drawNext_exhausted) (simp add: createDrawState_fields)
  have "fst (draw_n (Suc (length cards)) ?st) = seededShuffle cards seed @ [Null]"
    using full last by (simp only: draw_n_snd_Suc draw_n_fst_Suc) simp
  then show ?thesis
    using full last
    by (auto simp: run seededShuffle_mset distinct_ids_shuffle remaining_def exhausted_def
        createDrawState_fields)
qed

theorem draw_all_cards_witness:
  "distinct (map card_id [test_card1, test_card2, test_card3])
   \<and> Suc (Suc 0) \<le> length [test_card1, test_card2, test_card3]
   \<and> fst (draw_n (Suc (Suc (Suc 0))) (createDrawState [test_card1, test_card2, test_card3] (Num 42)))
       = [Val test_card3, Val test_card1, Val test_card2]
   \<and> distinct (map (map_jsval card_id)
        (fst (draw_n (Suc (Suc (Suc 0))) (createDrawState [test_card1, test_card2, test_card3] (Num 42)))))
   \<and> fst (draw_n (Suc (Suc 0)) (createDrawState [test_card1, test_card2, test_card3] (Num 42)))
       = [Val test_card3, Val test_card1]
   \<and> remaining (snd (draw_n (Suc (Suc 0)) (createDrawState [test_card1, test_card2, test_card3] (Num 42)))) = 1
   \<and> \<not> exhausted (snd (draw_n (Suc (Suc 0)) (createDrawState [test_card1, test_card2, test_card3] (Num 42))))"
proof -
  have sh: "seededShuffle [test_card1, test_card2, test_card3] (Num 42)
      = [Val test_card3, Val test_card1, Val test_card2]"
    by (simp add: shuffle_eval)
  have ids: "card_id test_card1 = ''1''" "card_id test_card2 = ''2''" "card_id test_card3 = ''3''"
    by (simp_all add: test_cards)
  show ?thesis
    using draw_all_cards [of "[test_card1, test_card2, test_card3]" "Num 42" "Suc (Suc 0)"]
    by (simp add: sh ids del: draw_n.simps)
qed

text \<open>
  Claim C5. In every state reached from \<open>createDrawState cards seed\<close> by \<open>n\<close> calls of
  \<open>drawNext\<close>, \<open>0 \<le> index \<le> total\<close>, \<open>order\<close> is still the shuffle made at construction, a
  permutation of the cards, and \<open>total\<close> is their number; a call of \<open>drawNext\<close> on any
  state changes neither \<open>order\<close> nor \<open>total\<close>; and a state that is exhausted after \<open>n\<close>
  calls is exhausted after any \<open>m\<close> further calls.
\<close>

theorem draw_state_invariant:
  "0 \<le> index_ds (snd (draw_n n (createDrawState cards seed)))
   \<and> index_ds (snd (draw_n n (createDrawState cards seed)))
       \<le> total_ds (snd (draw_n n (createDrawState cards seed)))
   \<and> order_ds (snd (draw_n n (createDrawState cards seed))) = seededShuffle cards seed
   \<and> mset (order_ds (snd (draw_n n (createDrawState cards seed)))) = mset (map Val cards)
   \<and> total_ds (snd (draw_n n (createDrawState cards seed))) = int (length cards)
   \<and> order_ds (snd (drawNext st)) = order_ds st
   \<and> total_ds (snd (drawNext st)) = total_ds st
   \<and> (exhausted (snd (draw_n n (createDrawState cards seed)))
        \<longrightarrow> exhausted (snd (draw_n (n + m) (createDrawState cards seed))))"
proof -
  let ?st = "createDrawState cards seed"
  have inv: "0 \<le> index_ds (snd (draw_n n ?st)) \<and> index_ds (snd (draw_n n ?st)) \<le> total_ds ?st
       \<and> order_ds (snd (draw_n n ?st)) = order_ds ?st \<and> total_ds (snd (draw_n n ?st)) = total_ds ?st"
    by (rule draw_n_invariant) (simp_all add: createDrawState_fields)
  have "exhausted (snd (draw_n (n + m) ?st))" if "exhausted (snd (draw_n n ?st))"
    using that by (simp add: draw_n_add exhausted_def draw_n_exhausted)
  then show ?thesis
    using inv by (simp add: createDrawState_fields seededShuffle_mset drawNext_keeps)
qed

theorem draw_state_invariant_witness:
  "exhausted (snd (draw_n (Suc 0) (createDrawState [test_card1] (Num 42))))
   \<and> exhausted (snd (draw_n (Suc 0 + 2) (createDrawState [test_card1] (Num 42))))
   \<and> index_ds (snd (draw_n (Suc 0) (createDrawState [test_card1] (Num 42)))) = 1
   \<and> total_ds (snd (draw_n (Suc 0) (createDrawState [test_card1] (Num 42)))) = 1"
proof -
  have "exhausted (snd (draw_n (Suc 0) (createDrawState [test_card1] (Num 42))))"
    by (simp add: createDrawState_def shuffle_eval drawNext_def exhausted_def)
  moreover have "index_ds (snd (draw_n (Suc 0) (createDrawState [test_card1] (Num 42)))) = 1"
    by (simp add: createDrawState_def shuffle_eval drawNext_def)
  ultimately show ?thesis
    using draw_state_invariant [of "Suc 0" "[test_card1]" "Num 42" "createDrawState [] (Num 42)" 2]
    by (simp del: draw_n.simps)
qed

text \<open>
  Claim C6. On an exhausted state (\<open>index \<ge> total\<close>) \<open>drawNext\<close> returns \<open>null\<close>, an ordinary
  result, and the state it leaves is the state it was given; the state that
  \<open>createDrawState\<close> builds from no cards is exhausted from the start.
\<close>

theorem drawNext_exhausted_unchanged:
  "(exhausted st \<longrightarrow> drawNext st = (Null, st))
   \<and> exhausted (createDrawState [] seed)
   \<and> drawNext (createDrawState [] seed) = (Null, createDrawState [] seed)"
  by (simp add: exhausted_def drawNext_exhausted createDrawState_fields)

theorem drawNext_exhausted_unchanged_witness:
  "exhausted \<lparr>order_ds = [Val test_card1], index_ds = 1, total_ds = 1\<rparr>
   \<and> drawNext \<lparr>order_ds = [Val test_card1], index_ds = 1, total_ds = 1\<rparr>
       = (Null, \<lparr>order_ds = [Val test_card1], index_ds = 1, total_ds = 1\<rparr>)"
  using drawNext_exhausted_unchanged [of "\<lparr>order_ds = [Val test_card1], index_ds = 1, total_ds = 1\<rparr>"]
  by (simp add: exhausted_def)

section \<open>Filtering by criteria\<close>

text \<open>
  Claim C3, amended. When the color criterion is present and not the empty string, and
  the symbol criterion restricts nothing (it is absent or the empty string),
  \<open>filterCards\<close> returns exactly the cards whose color is the given string, in their
  original order; likewise for the symbol criterion; with both criteria present and
  non-empty a card is kept iff it matches both. Under a non-empty color criterion,
  whatever the symbol criterion, every card returned has that color: a card whose color
  is absent or \<open>null\<close> is never returned; likewise for the symbol.
\<close>

theorem filterCards_criteria:
  assumes "v \<noteq> []" and "w \<noteq> []" and "\<not> truthy sy" and "\<not> truthy co"
  shows "filterCards cards (Some \<lparr>color_flt = Some v, symbol_flt = sy\<rparr>)
           = filter (\<lambda>card. color card = Val v) cards
       \<and> filterCards cards (Some \<lparr>color_flt = co, symbol_flt = Some w\<rparr>)
           = filter (\<lambda>card. symbol card = Val w) cards
       \<and> filterCards cards (Some \<lparr>color_flt = Some v, symbol_flt = Some w\<rparr>)
           = filter (\<lambda>card. color card = Val v \<and> symbol card = Val w) cards
       \<and> (\<forall>card \<in> set (filterCards cards (Some \<lparr>color_flt = Some v, symbol_flt = sy'\<rparr>)).
             color card = Val v \<and> color card \<noteq> Undefined \<and> color card \<noteq> Null)
       \<and> (\<forall>card \<in> set (filterCards cards (Some \<lparr>color_flt = co', symbol_flt = Some w\<rparr>)).
             symbol card = Val w \<and> symbol card \<noteq> Undefined \<and> symbol card \<noteq> Null)"
proof -
  have keep: "(if P then False else if Q then False else True) = (\<not> P \<and> \<not> Q)" for P Q
    by simp
  show ?thesis
    using assms by (auto simp: keep intro: filter_cong)
qed

theorem filterCards_criteria_witness:
  "''red'' \<noteq> [] \<and> ''heart'' \<noteq> [] \<and> \<not> truthy (Some []) \<and> \<not> truthy None
   \<and> filterCards [test_card1, test_card2, test_card3, test_card4, test_card5, test_card6]
        (Some \<lparr>color_flt = Some ''red'', symbol_flt = Some []\<rparr>)
       = [test_card1, test_card3, test_card6]
   \<and> filterCards [test_card1, test_card2, test_card3, test_card4, test_card5, test_card6]
        (Some \<lparr>color_flt = None, symbol_flt = Some ''heart''\<rparr>)
       = [test_card5, test_card6]
   \<and> filterCards [test_card1, test_card2, test_card3, test_card4, test_card5, test_card6]
        (Some \<lparr>color_flt = Some ''red'', symbol_flt = Some ''heart''\<rparr>)
       = [test_card6]
   \<and> test_card4 \<notin> set (filterCards
        [test_card1, test_card2, test_card3, test_card4, test_card5, test_card6]
        (Some \<lparr>color_flt = Some ''red'', symbol_flt = None\<rparr>))
   \<and> test_card5 \<notin> set (filterCards
        [test_card1, test_card2, test_card3, test_card4, test_card5, test_card6]
        (Some \<lparr>color_flt = Some ''red'', symbol_flt = None\<rparr>))"
proof -
  have attrs:
    "color test_card1 = Val ''red''" "color test_card2 = Val ''blue''"
    "color test_card3 = Val ''red''" "color test_card4 = Null" "color test_card5 = Undefined"
    "color test_card6 = Val ''red''"
    "symbol test_card1 = Undefined" "symbol test_card2 = Undefined" "symbol test_card3 = Undefined"
    "symbol test_card4 = Undefined" "symbol test_card5 = Val ''heart''"
    "symbol test_card6 = Val ''heart''"
    by (simp_all add: test_cards)
  note T = filterCards_criteria
      [of "''red''" "''heart''" "Some []" None
          "[test_card1, test_card2, test_card3, test_card4, test_card5, test_card6]" None None]
  have hyps: "''red'' \<noteq> []" "''heart'' \<noteq> []" "\<not> truthy (Some [])" "\<not> truthy None"
    by simp_all
  have absent: "test_card4 \<notin> set (filterCards
        [test_card1, test_card2, test_card3, test_card4, test_card5, test_card6]
        (Some \<lparr>color_flt = Some ''red'', symbol_flt = None\<rparr>))"
      "test_card5 \<notin> set (filterCards
        [test_card1, test_card2, test_card3, test_card4, test_card5, test_card6]
        (Some \<lparr>color_flt = Some ''red'', symbol_flt = None\<rparr>))"
    using T [OF hyps] attrs by (auto simp del: filterCards.simps)
  show ?thesis
    using T [OF hyps] absent hyps by (simp add: attrs del: filterCards.simps)
qed

text \<open>
  As the claim is stated, for every present color criterion, it fails: the criterion may
  be the empty string, which the guard \<open>filter.color &&\<close> treats as no criterion. A
  card whose color is \<open>blue\<close> is returned although its color is not the empty string.
\<close>

theorem filterCards_empty_color_counterexample:
  "filterCards [test_card2] (Some \<lparr>color_flt = Some [], symbol_flt = None\<rparr>) = [test_card2]
   \<and> color test_card2 \<noteq> Val []"
  by (simp add: test_cards)

section \<open>Seeds are coerced, not rejected\<close>

lemma uint_to_int32: "uint (to_int32 (Num x)) = truncate_js x mod 2 ^ 32"
proof -
  have len: "LENGTH(32) = 32" by simp
  show ?thesis
    unfolding to_int32.simps
    using uint_word_of_int [where 'a = 32 and k = "truncate_js x"]
    unfolding len .
qed

text \<open>
  Claim C8. Every seed is accepted and enters the generator through \<open>seed | 0\<close> only: the
  shuffle under a seed is the shuffle under its 32-bit coercion, so two seeds with the
  same coercion give the same shuffle. A finite seed is truncated towards zero and reduced
  modulo \<open>2^32\<close>; \<open>NaN\<close> and the infinities become 0.
\<close>

theorem seed_coercion:
  "seededShuffle items seed = seededShuffle items (int32_num (to_int32 seed))
   \<and> (to_int32 s1 = to_int32 s2 \<longrightarrow> seededShuffle items s1 = seededShuffle items s2)
   \<and> uint (to_int32 (Num x)) = truncate_js x mod 2 ^ 32
   \<and> to_int32 NaN = 0 \<and> to_int32 PosInfinity = 0 \<and> to_int32 NegInfinity = 0"
proof -
  have "seededShuffle items seed = seededShuffle items (int32_num (to_int32 seed))"
    by (simp add: seededShuffle_def mulberry32_def to_int32_int32_num)
  moreover have "seededShuffle items s1 = seededShuffle items s2" if "to_int32 s1 = to_int32 s2"
    using that by (simp add: seededShuffle_def mulberry32_def)
  moreover note uint_to_int32 [of x]
  ultimately show ?thesis
    by (simp only: to_int32.simps) blast
qed

theorem seed_coercion_witness:
  "to_int32 (Num (7 / 2)) = to_int32 (Num 3)
   \<and> seededShuffle [1, 2, 3 :: nat] (Num (7 / 2)) = seededShuffle [1, 2, 3] (Num 3)
   \<and> seededShuffle [1, 2, 3 :: nat] (Num (7 / 2)) = [Val 2, Val 1, Val 3]"
proof -
  have "to_int32 (Num (7 / 2)) = 3" and "to_int32 (Num 3) = 3" and "int32_num 3 = Num 3"
    by (simp_all add: truncate_js_def int32_num_def)
  moreover have "seededShuffle [1, 2, 3 :: nat] (Num 3) = [Val 2, Val 1, Val 3]"
    by (simp add: shuffle_eval)
  ultimately show ?thesis
    using seed_coercion [of "[1, 2, 3 :: nat]" "Num (7 / 2)" "Num (7 / 2)" "Num 3" 0]
    by simp
qed

section \<open>Determinism\<close>

lemma rng_h_eq:
  "rng_h g h = (fst (rng (cells h ! g)), h\<lparr>cells := (cells h)[g := snd (rng (cells h ! g))]\<rparr>)"
  by (simp add: rng_h_def case_prod_beta)

lemma shuffle_loop_h_step:
  "0 < i \<Longrightarrow> shuffle_loop_h i arr g h =
     shuffle_loop_h (i - 1) arr g
       ((snd (rng_h g h))\<lparr>arrays := (arrays (snd (rng_h g h)))
           [arr := swap (arrays (snd (rng_h g h)) ! arr) (nat i)
                     (floor_mul (fst (rng_h g h)) (nat (i + 1)))]\<rparr>)"
  by (subst shuffle_loop_h.simps) (simp add: case_prod_beta)

lemma shuffle_loop_h_stop: "\<not> 0 < i \<Longrightarrow> shuffle_loop_h i arr g h = h"
  by (subst shuffle_loop_h.simps) simp

lemma shuffle_loop_h_pure:
  assumes "arr < length (arrays h)" and "g < length (cells h)"
  shows "\<exists>s. shuffle_loop_h i arr g h =
           h\<lparr>arrays := (arrays h)[arr := shuffle_loop i (arrays h ! arr) (cells h ! g)],
             cells := (cells h)[g := s]\<rparr>"
  using assms
proof (induction n \<equiv> "nat i" arbitrary: i h)
  case 0
  then have "\<not> 0 < i" by simp
  then have "shuffle_loop_h i arr g h =
         h\<lparr>arrays := (arrays h)[arr := shuffle_loop i (arrays h ! arr) (cells h ! g)],
           cells := (cells h)[g := cells h ! g]\<rparr>"
    by (simp add: shuffle_loop_h_stop shuffle_loop_stop)
  then show ?case ..
next
  case (Suc n)
  then have pos: "0 < i" and n: "n = nat (i - 1)" by simp_all
  define k where "k = fst (rng (cells h ! g))"
  define s1 where "s1 = snd (rng (cells h ! g))"
  define j where "j = floor_mul k (nat (i + 1))"
  define h2 where "h2 = h\<lparr>arrays := (arrays h)[arr := swap (arrays h ! arr) (nat i) j],
                            cells := (cells h)[g := s1]\<rparr>"
  have "(h\<lparr>cells := (cells h)[g := s1]\<rparr>)
          \<lparr>arrays := (arrays h)[arr := swap (arrays h ! arr) (nat i) j]\<rparr> = h2"
    unfolding h2_def by (cases h) simp
  then have step: "shuffle_loop_h i arr g h = shuffle_loop_h (i - 1) arr g h2"
    using pos by (simp add: shuffle_loop_h_step rng_h_eq j_def k_def s1_def)
  have a2: "arrays h2 ! arr = swap (arrays h ! arr) (nat i) j" and c2: "cells h2 ! g = s1"
    using Suc.prems by (simp_all add: h2_def)
  have "arr < length (arrays h2)" and "g < length (cells h2)"
    using Suc.prems by (simp_all add: h2_def)
  from Suc.hyps(1) [OF n this]
  obtain s where "shuffle_loop_h (i - 1) arr g h2 =
         h2\<lparr>arrays := (arrays h2)[arr := shuffle_loop (i - 1) (arrays h2 ! arr) (cells h2 ! g)],
            cells := (cells h2)[g := s]\<rparr>" ..
  moreover have "shuffle_loop i (arrays h ! arr) (cells h ! g)
      = shuffle_loop (i - 1) (swap (arrays h ! arr) (nat i) j) s1"
    using pos by (simp add: shuffle_loop_step j_def k_def s1_def)
  ultimately have "shuffle_loop_h i arr g h =
         h\<lparr>arrays := (arrays h)[arr := shuffle_loop i (arrays h ! arr) (cells h ! g)],
           cells := (cells h)[g := s]\<rparr>"
    unfolding step a2 c2 by (cases h) (simp add: h2_def)
  then show ?case ..
qed

lemma seededShuffle_h_pure:
  assumes "items < length (arrays h)"
  shows "\<exists>s. seededShuffle_h items seed h =
           (length (arrays h),
            h\<lparr>arrays := arrays h @
                   [shuffle_loop (int (length (arrays h ! items)) - 1) (arrays h ! items)
                      (mulberry32 seed)],
              cells := cells h @ [s]\<rparr>)"
proof -
  define xs where "xs = arrays h ! items"
  define h2 where "h2 = h\<lparr>arrays := arrays h @ [xs], cells := cells h @ [to_int32 seed]\<rparr>"
  have run: "seededShuffle_h items seed h =
      (length (arrays h),
       shuffle_loop_h (int (length xs) - 1) (length (arrays h)) (length (cells h)) h2)"
    by (simp add: seededShuffle_h_def new_array_def mulberry32_h_def xs_def h2_def)
  have "length (arrays h) < length (arrays h2)" and "length (cells h) < length (cells h2)"
    by (simp_all add: h2_def)
  from shuffle_loop_h_pure [OF this, of "int (length xs) - 1"]
  obtain s where "shuffle_loop_h (int (length xs) - 1) (length (arrays h)) (length (cells h)) h2 =
      h2\<lparr>arrays := (arrays h2)[length (arrays h) :=
               shuffle_loop (int (length xs) - 1) (arrays h2 ! length (arrays h))
                 (cells h2 ! length (cells h))],
         cells := (cells h2)[length (cells h) := s]\<rparr>" ..
  then have "seededShuffle_h items seed h =
           (length (arrays h),
            h\<lparr>arrays := arrays h @
                   [shuffle_loop (int (length (arrays h ! items)) - 1) (arrays h ! items)
                      (mulberry32 seed)],
              cells := cells h @ [s]\<rparr>)"
    unfolding run by (cases h) (simp add: h2_def xs_def mulberry32_def)
  then show ?thesis ..
qed

lemma rng_calls_h_frame:
  assumes "g < length (cells h)"
  shows "fst (rng_calls_h n g h) = rng_stream (cells h ! g) n
       \<and> arrays (snd (rng_calls_h n g h)) = arrays h
       \<and> length (cells (snd (rng_calls_h n g h))) = length (cells h)
       \<and> (\<forall>g'. g' \<noteq> g \<longrightarrow> cells (snd (rng_calls_h n g h)) ! g' = cells h ! g')"
  using assms
proof (induction n arbitrary: h)
  case 0
  then show ?case by simp
next
  case (Suc n)
  define h1 where "h1 = h\<lparr>cells := (cells h)[g := snd (rng (cells h ! g))]\<rparr>"
  have g1: "g < length (cells h1)" using Suc.prems by (simp add: h1_def)
  have c1: "cells h1 ! g = snd (rng (cells h ! g))" using Suc.prems by (simp add: h1_def)
  have unf: "rng_calls_h (Suc n) g h =
      (fst (rng (cells h ! g)) # fst (rng_calls_h n g h1), snd (rng_calls_h n g h1))"
    by (simp add: rng_h_eq case_prod_beta h1_def)
  from Suc.IH [OF g1] show ?case
    unfolding unf by (simp add: c1 case_prod_beta) (simp add: h1_def)
qed

lemma seededShuffle_h_twice:
  fixes h :: "'a heap" and seed :: jsnum
  assumes "items < length (arrays h)"
  defines "out \<equiv> shuffle_loop (int (length (arrays h ! items)) - 1) (arrays h ! items)
                    (mulberry32 seed)"
  defines "run1 \<equiv> seededShuffle_h items seed h"
  defines "run2 \<equiv> seededShuffle_h items seed (snd run1)"
  shows "fst run1 = length (arrays h)" and "fst run2 = Suc (length (arrays h))"
    and "arrays (snd run1) = arrays h @ [out]"
    and "arrays (snd run2) = arrays h @ [out, out]"
proof -
  from seededShuffle_h_pure [OF assms(1), of seed]
  obtain s where "seededShuffle_h items seed h =
      (length (arrays h),
       h\<lparr>arrays := arrays h @
              [shuffle_loop (int (length (arrays h ! items)) - 1) (arrays h ! items)
                 (mulberry32 seed)],
         cells := cells h @ [s]\<rparr>)" ..
  then have r1: "run1 = (length (arrays h), h\<lparr>arrays := arrays h @ [out], cells := cells h @ [s]\<rparr>)"
    by (simp add: run1_def out_def)
  define h1 where "h1 = h\<lparr>arrays := arrays h @ [out], cells := cells h @ [s]\<rparr>"
  have in1: "items < length (arrays h1)" using assms(1) by (simp add: h1_def)
  have same: "arrays h1 ! items = arrays h ! items"
    using assms(1) by (simp add: h1_def nth_append)
  from seededShuffle_h_pure [OF in1, of seed]
  obtain s' where "seededShuffle_h items seed h1 =
      (length (arrays h1),
       h1\<lparr>arrays := arrays h1 @
              [shuffle_loop (int (length (arrays h1 ! items)) - 1) (arrays h1 ! items)
                 (mulberry32 seed)],
          cells := cells h1 @ [s']\<rparr>)" ..
  then have "seededShuffle_h items seed h1 =
      (length (arrays h1), h1\<lparr>arrays := arrays h1 @ [out], cells := cells h1 @ [s']\<rparr>)"
    unfolding same out_def [symmetric] .
  moreover have "snd run1 = h1" by (simp add: r1 h1_def)
  ultimately have r2: "run2 =
      (length (arrays h1), h1\<lparr>arrays := arrays h1 @ [out], cells := cells h1 @ [s']\<rparr>)"
    by (simp only: run2_def)
  show "fst run1 = length (arrays h)" by (simp add: r1)
  show "fst run2 = Suc (length (arrays h))" by (simp add: r2 h1_def)
  show "arrays (snd run1) = arrays h @ [out]" by (simp add: r1)
  show "arrays (snd run2) = arrays h @ [out, out]" by (simp add: r2 h1_def)
qed

lemmas heap_eval =
  seededShuffle_h_def new_array_def mulberry32_h_def rng_h_eq shuffle_loop_h_step
  shuffle_loop_h_stop rng_def imul_def floor_mul_def fp_round_def swap_def js_get_def
  js_set_def truncate_js_def

text \<open>
  Claim C4. Two invocations of \<open>seededShuffle\<close> on the same array with the same seed, the
  second running in the heap the first has left, return arrays with identical contents,
  element for element: each invocation copies its input, builds its own generator from
  the seed, and leaves the input and the earlier result as they were, so the result is the
  pure shuffle of the input's contents and the seed, whatever else the heap holds.
  Likewise for the generator: two closures made from the same seed, both alive and drawn
  from one after the other, yield the same stream, which is the stream of the seed; a run
  of fewer draws yields the beginning of that stream.
\<close>

theorem shuffle_deterministic:
  fixes h :: "'a heap" and seed :: jsnum and n m :: nat and xs :: "'a list"
  assumes "items < length (arrays h)"
  defines "run1 \<equiv> seededShuffle_h items seed h"
  defines "run2 \<equiv> seededShuffle_h items seed (snd run1)"
  defines "gen1 \<equiv> mulberry32_h seed h"
  defines "gen2 \<equiv> mulberry32_h seed (snd gen1)"
  defines "draws2 \<equiv> rng_calls_h n (fst gen2) (snd gen2)"
  defines "draws1 \<equiv> rng_calls_h n (fst gen1) (snd draws2)"
  shows "arrays (snd run2) ! fst run2 = arrays (snd run1) ! fst run1
       \<and> arrays (snd run2) ! fst run1 = arrays (snd run1) ! fst run1
       \<and> arrays (snd run1) ! fst run1
           = shuffle_loop (int (length (arrays h ! items)) - 1) (arrays h ! items) (mulberry32 seed)
       \<and> arrays (snd run1) ! items = arrays h ! items
       \<and> arrays (snd run2) ! items = arrays h ! items
       \<and> fst run1 \<noteq> items \<and> fst run2 \<noteq> items \<and> fst run2 \<noteq> fst run1
       \<and> fst draws1 = fst draws2
       \<and> fst draws1 = rng_stream (mulberry32 seed) n
       \<and> (m \<le> n \<longrightarrow> fst (rng_calls_h m (fst gen1) (snd draws2)) = take m (fst draws2))
       \<and> (arrays h ! items = map Val xs \<longrightarrow>
            arrays (snd run1) ! fst run1 = seededShuffle xs seed)"
proof -
  note tw = seededShuffle_h_twice [OF assms(1), of seed, folded run1_def run2_def]
  have arr: "arrays (snd run2) ! fst run2 = arrays (snd run1) ! fst run1"
    "arrays (snd run2) ! fst run1 = arrays (snd run1) ! fst run1"
    "arrays (snd run1) ! fst run1
      = shuffle_loop (int (length (arrays h ! items)) - 1) (arrays h ! items) (mulberry32 seed)"
    by (simp_all add: tw nth_append)
  have inp: "arrays (snd run1) ! items = arrays h ! items"
    "arrays (snd run2) ! items = arrays h ! items"
    "fst run1 \<noteq> items" "fst run2 \<noteq> items" "fst run2 \<noteq> fst run1"
    using assms(1) by (simp_all add: tw nth_append)
  have g1: "fst gen1 = length (cells h)" and g2: "fst gen2 = Suc (length (cells h))"
    and c2: "cells (snd gen2) = cells h @ [to_int32 seed, to_int32 seed]"
    by (simp_all add: gen1_def gen2_def mulberry32_h_def)
  have in2: "fst gen2 < length (cells (snd gen2))" by (simp add: g2 c2)
  note f2 = rng_calls_h_frame [OF in2, of n, folded draws2_def]
  have d2: "fst draws2 = rng_stream (mulberry32 seed) n"
    using f2 by (simp add: g2 c2 mulberry32_def nth_append)
  have in1: "fst gen1 < length (cells (snd draws2))"
    using f2 by (simp add: g1 c2)
  have c1: "cells (snd draws2) ! fst gen1 = mulberry32 seed"
    using f2 by (simp add: g1 g2 c2 mulberry32_def nth_append)
  have d1: "fst (rng_calls_h k (fst gen1) (snd draws2)) = rng_stream (mulberry32 seed) k" for k
    using rng_calls_h_frame [OF in1, of k] by (simp add: c1)
  have "fst draws1 = fst draws2"
    by (simp add: draws1_def d1 d2)
  moreover have "fst draws1 = rng_stream (mulberry32 seed) n"
    by (simp add: draws1_def d1)
  moreover have "fst (rng_calls_h m (fst gen1) (snd draws2)) = take m (fst draws2)" if "m \<le> n"
    using that by (simp add: d1 d2 rng_stream_take)
  moreover have "arrays (snd run1) ! fst run1 = seededShuffle xs seed"
    if "arrays h ! items = map Val xs"
    using arr(3) that by (simp add: seededShuffle_def)
  ultimately show ?thesis
    using arr inp by blast
qed

theorem shuffle_deterministic_witness:
  "(0::nat) < length (arrays test_heap) \<and> (1::nat) \<le> 2
   \<and> seededShuffle_h 0 (Num 42) test_heap
       = (1, \<lparr>arrays = [[Val 1, Val 2, Val 3], [Val 3, Val 1, Val 2]], cells = [3663131668]\<rparr>)
   \<and> arrays (snd (seededShuffle_h 0 (Num 42) (snd (seededShuffle_h 0 (Num 42) test_heap))))
        ! fst (seededShuffle_h 0 (Num 42) (snd (seededShuffle_h 0 (Num 42) test_heap)))
       = [Val 3, Val 1, Val 2]
   \<and> arrays (snd (seededShuffle_h 0 (Num 42) (snd (seededShuffle_h 0 (Num 42) test_heap)))) ! 0
       = [Val 1, Val 2, Val 3]
   \<and> fst (rng_calls_h 2 (fst (mulberry32_h (Num 42) test_heap))
          (snd (rng_calls_h 2
             (fst (mulberry32_h (Num 42) (snd (mulberry32_h (Num 42) test_heap))))
             (snd (mulberry32_h (Num 42) (snd (mulberry32_h (Num 42) test_heap)))))))
       = [2581720956, 1925393290]
   \<and> fst (rng_calls_h 1 (fst (mulberry32_h (Num 42) test_heap))
          (snd (rng_calls_h 2
             (fst (mulberry32_h (Num 42) (snd (mulberry32_h (Num 42) test_heap))))
             (snd (mulberry32_h (Num 42) (snd (mulberry32_h (Num 42) test_heap)))))))
       = [2581720956]
   \<and> arrays test_heap ! 0 = map Val [1, 2, 3]
   \<and> arrays (snd (seededShuffle_h 0 (Num 42) test_heap)) ! fst (seededShuffle_h 0 (Num 42) test_heap)
       = seededShuffle [1, 2, 3] (Num 42)"
proof -
  have run1: "seededShuffle_h 0 (Num 42) test_heap
       = (1, \<lparr>arrays = [[Val 1, Val 2, Val 3], [Val 3, Val 1, Val 2]], cells = [3663131668]\<rparr>)"
    by (simp add: test_heap_def heap_eval)
  have len: "(0::nat) < length (arrays test_heap)"
    by (simp add: test_heap_def)
  have inp: "arrays test_heap ! 0 = [Val 1, Val 2, Val 3]"
    by (simp add: test_heap_def)
  have "rng_stream (mulberry32 (Num 42)) (Suc (Suc 0)) = [2581720956, 1925393290]"
    by (simp add: shuffle_eval)
  then have str: "rng_stream (mulberry32 (Num 42)) 2 = [2581720956, 1925393290]"
    by (simp only: numeral_2_eq_2)
  have inp': "arrays test_heap ! 0 = map Val [1, 2, 3]"
    by (simp add: test_heap_def)
  note T = shuffle_deterministic [OF len, of "Num 42" 2 1 "[1, 2, 3]"]
  note eqs = T [THEN conjunct2, THEN conjunct2, THEN conjunct2, THEN conjunct2, THEN conjunct2,
      THEN conjunct2, THEN conjunct2, THEN conjunct2, THEN conjunct1]
  note pre = T [THEN conjunct2, THEN conjunct2, THEN conjunct2, THEN conjunct2, THEN conjunct2,
      THEN conjunct2, THEN conjunct2, THEN conjunct2, THEN conjunct2, THEN conjunct2,
      THEN conjunct1, rule_format]
  note lnk = T [THEN conjunct2, THEN conjunct2, THEN conjunct2, THEN conjunct2, THEN conjunct2,
      THEN conjunct2, THEN conjunct2, THEN conjunct2, THEN conjunct2, THEN conjunct2,
      THEN conjunct2, rule_format]
  note out2 = T [THEN conjunct1]
  note inp2 = T [THEN conjunct2, THEN conjunct2, THEN conjunct2, THEN conjunct2, THEN conjunct1]
  note strm = T [THEN conjunct2, THEN conjunct2, THEN conjunct2, THEN conjunct2, THEN conjunct2,
      THEN conjunct2, THEN conjunct2, THEN conjunct2, THEN conjunct2, THEN conjunct1]
  have a: "arrays (snd (seededShuffle_h 0 (Num 42) (snd (seededShuffle_h 0 (Num 42) test_heap))))
        ! fst (seededShuffle_h 0 (Num 42) (snd (seededShuffle_h 0 (Num 42) test_heap)))
       = [Val 3, Val 1, Val 2]"
    using out2 by (simp add: run1)
  have b: "arrays (snd (seededShuffle_h 0 (Num 42) (snd (seededShuffle_h 0 (Num 42) test_heap)))) ! 0
       = [Val 1, Val 2, Val 3]"
    using inp2 inp by (rule trans)
  have c: "fst (rng_calls_h 2 (fst (mulberry32_h (Num 42) test_heap))
          (snd (rng_calls_h 2
             (fst (mulberry32_h (Num 42) (snd (mulberry32_h (Num 42) test_heap))))
             (snd (mulberry32_h (Num 42) (snd (mulberry32_h (Num 42) test_heap)))))))
       = [2581720956, 1925393290]"
    using strm str by (rule trans)
  have le: "(1::nat) \<le> 2" by simp
  have "fst (rng_calls_h 2
             (fst (mulberry32_h (Num 42) (snd (mulberry32_h (Num 42) test_heap))))
             (snd (mulberry32_h (Num 42) (snd (mulberry32_h (Num 42) test_heap)))))
       = [2581720956, 1925393290]"
    using eqs c by simp
  with pre [OF le]
  have d: "fst (rng_calls_h 1 (fst (mulberry32_h (Num 42) test_heap))
          (snd (rng_calls_h 2
             (fst (mulberry32_h (Num 42) (snd (mulberry32_h (Num 42) test_heap))))
             (snd (mulberry32_h (Num 42) (snd (mulberry32_h (Num 42) test_heap)))))))
       = [2581720956]"
    by simp
  note e = lnk [OF inp']
  from len le run1 a b c d inp' e show ?thesis
    by (intro conjI)
qed

section \<open>Range of the generator and bounds of the swaps\<close>

lemma rng_stream_values:
  "k \<in> set (rng_stream s n) \<Longrightarrow>
     0 \<le> rng_value k \<and> rng_value k < 1 \<and> rng_value k = real (unat k) / 2 ^ 32 \<and> unat k < 2 ^ 32"
  using rng_value_range [of k] unsigned_less [of k, where 'a = nat]
  by (simp add: rng_value_def del: of_nat_unat)

lemma floor_mul_le: "floor_mul k (Suc i) \<le> i"
  using floor_mul_less [of "Suc i" k] by simp

lemma floor_mul_exact:
  assumes "Suc i \<le> 2 ^ 21"
  shows "int (floor_mul k (Suc i)) = \<lfloor>rng_value k * real (Suc i)\<rfloor>"
proof (rule floor_mul_real)
  have "unat k < 2 ^ 32" using unsigned_less [of k] by simp
  then have "unat k * Suc i < 2 ^ 32 * 2 ^ 21"
    using assms by (intro mult_less_le_imp_less) simp_all
  then show "unat k * Suc i < 2 ^ 53" by simp
qed

lemma seededShuffle_fold:
  "seededShuffle items seed
     = foldl (\<lambda>a (p, q). swap a p q) (map Val items)
         (swap_indices (int (length items) - 1) (mulberry32 seed))"
  by (simp add: seededShuffle_def shuffle_loop_fold)

lemma swap_access_in_bounds:
  assumes "t < length (swap_indices (int (length arr) - 1) s)"
    and "swap_indices (int (length arr) - 1) s ! t = (p, q)"
  shows "q \<le> p \<and> p < length (foldl (\<lambda>a (p, q). swap a p q) arr
                           (take t (swap_indices (int (length arr) - 1) s)))"
proof -
  let ?ps = "swap_indices (int (length arr) - 1) s"
  from assms have mem: "(p, q) \<in> set ?ps" by (metis nth_mem)
  have "\<forall>(a, b) \<in> set (take t ?ps). a < length arr \<and> b < length arr"
    using swap_indices_in_range [of _ _ "length arr" s] by (auto dest: in_set_takeD)
  then have "length (foldl (\<lambda>a (p, q). swap a p q) arr (take t ?ps)) = length arr"
    using foldl_swap_inv by blast
  with swap_indices_bounds [OF mem] swap_indices_in_range [OF mem] show ?thesis by simp
qed

text \<open>
  Claim C9. Every value of the generator's stream is \<open>k / 2^32\<close> with \<open>0 \<le> k < 2^32\<close>, so
  it lies in \<open>[0, 1)\<close>. The index drawn for position \<open>i\<close>, the floor of the binary64
  product of such a value and \<open>i + 1\<close>, is at most \<open>i\<close>; for arrays of at most \<open>2^21\<close>
  elements the product is exact and the index is the floor of the real product. The
  shuffle is the sequence of swaps at the index pairs \<open>(i, j)\<close> drawn, and at every swap
  \<open>j \<le> i\<close> and \<open>i\<close> is below the length the array has at that moment: every read and
  write is inside the array.
\<close>

theorem rng_range_and_swap_bounds:
  "(\<forall>k \<in> set (rng_stream (mulberry32 seed) n).
       0 \<le> rng_value k \<and> rng_value k < 1 \<and> rng_value k = real (unat k) / 2 ^ 32 \<and> unat k < 2 ^ 32)
   \<and> floor_mul k (Suc i) \<le> i
   \<and> (Suc i \<le> 2 ^ 21 \<longrightarrow> int (floor_mul k (Suc i)) = \<lfloor>rng_value k * real (Suc i)\<rfloor>)
   \<and> seededShuffle items seed
       = foldl (\<lambda>a (p, q). swap a p q) (map Val items)
           (swap_indices (int (length items) - 1) (mulberry32 seed))
   \<and> (\<forall>t < length (swap_indices (int (length items) - 1) (mulberry32 seed)).
        case swap_indices (int (length items) - 1) (mulberry32 seed) ! t of
          (p, q) \<Rightarrow> q \<le> p \<and> p < length (foldl (\<lambda>a (p, q). swap a p q) (map Val items)
                 (take t (swap_indices (int (length items) - 1) (mulberry32 seed)))))"
proof -
  have "case swap_indices (int (length items) - 1) (mulberry32 seed) ! t of
          (p, q) \<Rightarrow> q \<le> p \<and> p < length (foldl (\<lambda>a (p, q). swap a p q) (map Val items)
                 (take t (swap_indices (int (length items) - 1) (mulberry32 seed))))"
    if "t < length (swap_indices (int (length items) - 1) (mulberry32 seed))" for t
    using swap_access_in_bounds [of t "map Val items" "mulberry32 seed"] that
    by (cases "swap_indices (int (length items) - 1) (mulberry32 seed) ! t") simp
  then show ?thesis
    using rng_stream_values [of _ "mulberry32 seed" n] floor_mul_le [of k i]
      floor_mul_exact [of i k] seededShuffle_fold [of items seed]
    by blast
qed

theorem rng_range_and_swap_bounds_witness:
  "2581720956 \<in> set (rng_stream (mulberry32 (Num 42)) 3)
   \<and> 0 \<le> rng_value 2581720956 \<and> rng_value 2581720956 < 1
   \<and> Suc 2 \<le> 2 ^ 21
   \<and> int (floor_mul 2581720956 (Suc 2)) = \<lfloor>rng_value 2581720956 * real (Suc 2)\<rfloor>
   \<and> floor_mul 2581720956 (Suc 2) = 1
   \<and> swap_indices (int (length [1, 2, 3 :: nat]) - 1) (mulberry32 (Num 42)) = [(2, 1), (1, 0)]
   \<and> (0::nat) < length (swap_indices (int (length [1, 2, 3 :: nat]) - 1) (mulberry32 (Num 42)))
   \<and> (1::nat) \<le> 2
   \<and> 2 < length (foldl (\<lambda>a (p, q). swap a p q) (map Val [1, 2, 3 :: nat])
         (take 0 (swap_indices (int (length [1, 2, 3 :: nat]) - 1) (mulberry32 (Num 42)))))"
proof -
  note T = rng_range_and_swap_bounds [of "Num 42" 3 2581720956 2 "[1, 2, 3 :: nat]"]
  have "rng_stream (mulberry32 (Num 42)) (Suc (Suc (Suc 0))) = [2581720956, 1925393290, 3661312704]"
    by (simp add: shuffle_eval)
  then have mem: "2581720956 \<in> set (rng_stream (mulberry32 (Num 42)) 3)"
    by (simp only: numeral_3_eq_3) simp
  with T have range: "0 \<le> rng_value 2581720956 \<and> rng_value 2581720956 < 1"
    by blast
  have small: "Suc 2 \<le> 2 ^ 21" by simp
  with T have exact: "int (floor_mul 2581720956 (Suc 2)) = \<lfloor>rng_value 2581720956 * real (Suc 2)\<rfloor>"
    by blast
  have j: "floor_mul 2581720956 (Suc 2) = 1"
    by (simp add: floor_mul_def fp_round_def)
  have idx: "swap_indices (int (length [1, 2, 3 :: nat]) - 1) (mulberry32 (Num 42)) = [(2, 1), (1, 0)]"
    by (simp add: shuffle_eval)
  then have pos: "(0::nat) < length (swap_indices (int (length [1, 2, 3 :: nat]) - 1) (mulberry32 (Num 42)))"
    by simp
  note T [THEN conjunct2, THEN conjunct2, THEN conjunct2, THEN conjunct2, rule_format, OF pos]
  then have acc: "(1::nat) \<le> 2 \<and> 2 < length (foldl (\<lambda>a (p, q). swap a p q) (map Val [1, 2, 3 :: nat])
         (take 0 (swap_indices (int (length [1, 2, 3 :: nat]) - 1) (mulberry32 (Num 42)))))"
    by (simp add: idx)
  from mem range small exact j idx pos acc show ?thesis
    by blast
qed

end
